theory Spec2Isabelle
  imports Main "HOL-Library.Word"
begin

unbundle bit_operations_syntax

section \<open>Memory, records and comparators\<close>

text \<open>
  The sort works on raw bytes through two pointers that never alias (both are declared
  \<^verbatim>\<open>RESTRICT\<close>): \<^verbatim>\<open>base\<close>, the caller's buffer, and \<^verbatim>\<open>lhs\<close>, the mapped scratch region.
  Each is modelled as a byte store indexed by the offset from the pointer the caller of
  \<^verbatim>\<open>mergesort_nonlibc\<close> handed in, so \<^verbatim>\<open>base[i]\<close> is \<open>B i\<close> and the scratch byte \<^verbatim>\<open>lhs[i]\<close> is
  \<open>S i\<close>. The stores are total: offsets past the end of the buffer or of the mapping
  stand for whatever memory follows them, so that what the code reads and writes there
  stays visible. Offsets are natural numbers (an object never wraps around the address
  space); the one \<^verbatim>\<open>size_t\<close> subtraction that can wrap, \<^verbatim>\<open>nmemb - 1\<close>, is written out:
  it is \<open>2 ^ 64 - 1\<close> when \<open>nmemb\<close> is 0 (\<^verbatim>\<open>size_t\<close> has 64 bits).

  The comparator receives two \<^verbatim>\<open>const void *\<close>; it is modelled as a function of the two
  records (the \<open>size\<close> bytes) found at these addresses.
\<close>

type_synonym u8 = "8 word"
type_synonym u32 = "32 word"
type_synonym memory = "nat \<Rightarrow> u8"
type_synonym compar = "u8 list \<Rightarrow> u8 list \<Rightarrow> int"

definition obj :: "memory \<Rightarrow> nat \<Rightarrow> nat \<Rightarrow> u8 list" where
  "obj m p n = map (\<lambda>i. m (p + i)) [0..<n]"

text \<open>A 32-bit load and store through a \<^verbatim>\<open>uint32_t *\<close> (little-endian).\<close>

definition load_u32 :: "memory \<Rightarrow> nat \<Rightarrow> u32" where
  "load_u32 m p = ucast (m p) OR push_bit 8 (ucast (m (p + 1))) OR
     push_bit 16 (ucast (m (p + 2))) OR push_bit 24 (ucast (m (p + 3)))"

definition store_u32 :: "memory \<Rightarrow> nat \<Rightarrow> u32 \<Rightarrow> memory" where
  "store_u32 m p w = m(p := ucast w, p + 1 := ucast (drop_bit 8 w),
      p + 2 := ucast (drop_bit 16 w), p + 3 := ucast (drop_bit 24 w))"

section \<open>mergesort\_copy\<close>

text \<open>
  The two copy loops of \<^verbatim>\<open>mergesort_copy\<close>; \<open>dst\<close> is the store written through \<^verbatim>\<open>p1\<close>,
  \<open>src\<close> the store read through \<^verbatim>\<open>p2\<close>.
\<close>

function copy_u32 :: "memory \<Rightarrow> nat \<Rightarrow> memory \<Rightarrow> nat \<Rightarrow> nat \<Rightarrow> memory" where
  "copy_u32 dst u32p1 src u32p2 u32end =
     (if u32p1 < u32end
      then copy_u32 (store_u32 dst u32p1 (load_u32 src u32p2)) (u32p1 + 4) src (u32p2 + 4) u32end
      else dst)"
  by pat_completeness auto
termination
  by (relation "measure (\<lambda>(dst, u32p1, src, u32p2, u32end). u32end - u32p1)") auto

declare copy_u32.simps [simp del]

function copy_u8 :: "memory \<Rightarrow> nat \<Rightarrow> memory \<Rightarrow> nat \<Rightarrow> nat \<Rightarrow> memory" where
  "copy_u8 dst u8p1 src u8p2 u8end =
     (if u8p1 < u8end
      then copy_u8 (dst(u8p1 := src u8p2)) (u8p1 + 1) src (u8p2 + 1) u8end
      else dst)"
  by pat_completeness auto
termination
  by (relation "measure (\<lambda>(dst, u8p1, src, u8p2, u8end). u8end - u8p1)") auto

declare copy_u8.simps [simp del]

definition mergesort_copy :: "memory \<Rightarrow> nat \<Rightarrow> memory \<Rightarrow> nat \<Rightarrow> nat \<Rightarrow> memory" where
  "mergesort_copy dst p1 src p2 sz =
     (if sz = 4 then copy_u32 dst p1 src p2 (p1 + sz)
      else copy_u8 dst p1 src p2 (p1 + sz))"

section \<open>The merge\<close>

text \<open>
  The state of the merge loop is the buffer store and the three moving pointers
  \<^verbatim>\<open>base\<close>, \<^verbatim>\<open>lhs\<close> and \<^verbatim>\<open>rhs\<close>; the scratch store is only read. The loop of
  \<^verbatim>\<open>mergesort_partition4\<close> advances by four bytes at every turn, so it always ends.
\<close>

type_synonym merge_state = "memory \<times> nat \<times> nat \<times> nat"

function merge_loop4 ::
  "compar \<Rightarrow> memory \<Rightarrow> nat \<Rightarrow> nat \<Rightarrow> memory \<Rightarrow> nat \<Rightarrow> nat \<Rightarrow> nat \<Rightarrow> merge_state" where
  "merge_loop4 compar S lhs_end rhs_end B base lhs rhs =
     (if compar (obj S lhs 4) (obj S rhs 4) < 0 then
        (let B' = store_u32 B base (load_u32 S lhs); lhs' = lhs + 4 in
         if lhs' > lhs_end then (B', base, lhs', rhs)
         else merge_loop4 compar S lhs_end rhs_end B' (base + 4) lhs' rhs)
      else
        (let B' = store_u32 B base (load_u32 S rhs); rhs' = rhs + 4 in
         if rhs' > rhs_end then (B', base, lhs, rhs')
         else merge_loop4 compar S lhs_end rhs_end B' (base + 4) lhs rhs'))"
  by pat_completeness auto
termination
  by (relation "measure (\<lambda>(compar, S, lhs_end, rhs_end, B, base, lhs, rhs).
        (lhs_end + 4 - lhs) + (rhs_end + 4 - rhs))") auto

declare merge_loop4.simps [simp del]

text \<open>
  The loop of \<^verbatim>\<open>mergesort_partition\<close> advances by \<open>size\<close> bytes; with \<open>size = 0\<close> no pointer
  moves and the loop never ends, which is the value \<open>None\<close>.
\<close>

partial_function (option) merge_loop ::
  "compar \<Rightarrow> nat \<Rightarrow> memory \<Rightarrow> nat \<Rightarrow> nat \<Rightarrow> memory \<Rightarrow> nat \<Rightarrow> nat \<Rightarrow> nat \<Rightarrow> merge_state option" where
  "merge_loop compar sz S lhs_end rhs_end B base lhs rhs =
     (if compar (obj S lhs sz) (obj S rhs sz) < 0 then
        (let B' = mergesort_copy B base S lhs sz; lhs' = lhs + sz in
         if lhs' > lhs_end then Some (B', base, lhs', rhs)
         else merge_loop compar sz S lhs_end rhs_end B' (base + sz) lhs' rhs)
      else
        (let B' = mergesort_copy B base S rhs sz; rhs' = rhs + sz in
         if rhs' > rhs_end then Some (B', base, lhs, rhs')
         else merge_loop compar sz S lhs_end rhs_end B' (base + sz) lhs rhs'))"

declare merge_loop.simps [code]

text \<open>
  The code after the loop, shared by both functions: \<^verbatim>\<open>n\<close> is a signed \<^verbatim>\<open>ssize_t\<close>, and the
  rest of a run is copied only when \<^verbatim>\<open>n > 0\<close>.
\<close>

definition merge_tail :: "memory \<Rightarrow> nat \<Rightarrow> nat \<Rightarrow> merge_state \<Rightarrow> memory" where
  "merge_tail S lhs_end rhs_end st =
     (case st of (B, base, lhs, rhs) \<Rightarrow>
        let n = int lhs_end - int lhs;
            (B, base) = (if n > 0 then (mergesort_copy B base S lhs (nat n), base + nat n)
                         else (B, base));
            n = int rhs_end - int rhs
        in if n > 0 then mergesort_copy B base S rhs (nat n) else B)"

section \<open>The two partition functions and mergesort\_nonlibc\<close>

text \<open>
  Both functions return the buffer store and the scratch store as the call leaves them.
  \<^verbatim>\<open>right - left\<close> is a \<^verbatim>\<open>size_t\<close> subtraction; every call made by the code has
  \<open>left \<le> right\<close>.
\<close>

text \<open>
  The second half of each function, from \<^verbatim>\<open>lhs_len = mid - left + 1\<close> to the end: the two
  runs are copied to the scratch region and merged back. \<^verbatim>\<open>lhs\<close> is the start of the scratch
  region, offset 0 of \<open>S\<close>.
\<close>

definition partition4_merge ::
  "memory \<Rightarrow> memory \<Rightarrow> nat \<Rightarrow> nat \<Rightarrow> nat \<Rightarrow> compar \<Rightarrow> memory \<times> memory" where
  "partition4_merge B S left mid right compar =
     (let lhs_len = mid - left + 1;
          rhs_len = right - mid;
          lhs_size = lhs_len * 4;
          rhs_size = rhs_len * 4;
          lhs = 0;
          rhs = lhs + lhs_size;
          S = mergesort_copy S lhs B (left * 4) lhs_size;
          S = mergesort_copy S rhs B ((mid + 1) * 4) rhs_size;
          base = left * 4;
          lhs_end = rhs;
          rhs_end = rhs + rhs_size
      in (merge_tail S lhs_end rhs_end (merge_loop4 compar S lhs_end rhs_end B base lhs rhs), S))"

definition partition_merge ::
  "memory \<Rightarrow> memory \<Rightarrow> nat \<Rightarrow> nat \<Rightarrow> nat \<Rightarrow> nat \<Rightarrow> compar \<Rightarrow> (memory \<times> memory) option" where
  "partition_merge B S left mid right sz compar =
     (let lhs_len = mid - left + 1;
          rhs_len = right - mid;
          lhs_size = lhs_len * sz;
          rhs_size = rhs_len * sz;
          lhs = 0;
          rhs = lhs + lhs_size;
          S = mergesort_copy S lhs B (left * sz) lhs_size;
          S = mergesort_copy S rhs B ((mid + 1) * sz) rhs_size;
          base = left * sz;
          lhs_end = rhs;
          rhs_end = rhs + rhs_size
      in case merge_loop compar sz S lhs_end rhs_end B base lhs rhs of
           None \<Rightarrow> None
         | Some st \<Rightarrow> Some (merge_tail S lhs_end rhs_end st, S))"

function mergesort_partition4 ::
  "memory \<Rightarrow> memory \<Rightarrow> nat \<Rightarrow> nat \<Rightarrow> compar \<Rightarrow> memory \<times> memory" where
  "mergesort_partition4 B S left right compar =
     (let mid = left + (right - left) div 2;
          (B, S) = (if left < mid then mergesort_partition4 B S left mid compar else (B, S));
          (B, S) = (if mid + 1 < right then mergesort_partition4 B S (mid + 1) right compar
                    else (B, S))
      in partition4_merge B S left mid right compar)"
  by pat_completeness auto
termination
  by (relation "measure (\<lambda>(B, S, left, right, compar). right - left)") auto

declare mergesort_partition4.simps [simp del]

function mergesort_partition ::
  "memory \<Rightarrow> memory \<Rightarrow> nat \<Rightarrow> nat \<Rightarrow> nat \<Rightarrow> compar \<Rightarrow> (memory \<times> memory) option" where
  "mergesort_partition B S left right sz compar =
     (let mid = left + (right - left) div 2 in
      case (if left < mid then mergesort_partition B S left mid sz compar
            else Some (B, S)) of
        None \<Rightarrow> None
      | Some (B, S) \<Rightarrow>
      (case (if mid + 1 < right then mergesort_partition B S (mid + 1) right sz compar
             else Some (B, S)) of
        None \<Rightarrow> None
      | Some (B, S) \<Rightarrow> partition_merge B S left mid right sz compar))"
  by pat_completeness auto
termination
  by (relation "measure (\<lambda>(B, S, left, right, sz, compar). right - left)") auto

declare mergesort_partition.simps [simp del]

text \<open>
  \<^verbatim>\<open>stress_mmap_populate\<close> is not part of the file; what it returns is a parameter of the
  model: \<open>MAP_FAILED\<close>, or the mapped scratch region with its initial contents. The
  result is the return value together with the buffer store; \<open>None\<close> stands for a call
  whose loop never ends. Since the stores are total, a read or a write past the mapping or
  past the buffer cannot fault here: that a call returns means that its loops end, and what
  it returns is what a call that survives these accesses returns.
\<close>

datatype mmap_result = MAP_FAILED | Mapped memory

definition mergesort_nonlibc ::
  "mmap_result \<Rightarrow> memory \<Rightarrow> nat \<Rightarrow> nat \<Rightarrow> compar \<Rightarrow> (int \<times> memory) option" where
  "mergesort_nonlibc mapped base nmemb sz compar =
     (case mapped of
        MAP_FAILED \<Rightarrow> Some (- 1, base)
      | Mapped lhs \<Rightarrow>
          (let right = (if nmemb = 0 then 2 ^ 64 - 1 else nmemb - 1) in
           if sz = 4 then Some (0, fst (mergesort_partition4 base lhs 0 right compar))
           else (case mergesort_partition base lhs 0 right sz compar of
                   None \<Rightarrow> None
                 | Some (B, S) \<Rightarrow> Some (0, B))))"

section \<open>Records, order and the merge rule of the specification\<close>

definition rec_at :: "memory \<Rightarrow> nat \<Rightarrow> nat \<Rightarrow> u8 list" where
  "rec_at m sz i = obj m (i * sz) sz"

text \<open>\<open>chunks m sz p k\<close> are the \<open>k\<close> records that start at the byte offset \<open>p\<close>.\<close>

fun chunks :: "memory \<Rightarrow> nat \<Rightarrow> nat \<Rightarrow> nat \<Rightarrow> u8 list list" where
  "chunks m sz p 0 = []"
| "chunks m sz p (Suc k) = obj m p sz # chunks m sz (p + sz) k"

text \<open>\<open>recs m sz l k\<close> are the \<open>k\<close> records from index \<open>l\<close> on.\<close>

definition recs :: "memory \<Rightarrow> nat \<Rightarrow> nat \<Rightarrow> nat \<Rightarrow> u8 list list" where
  "recs m sz l k = chunks m sz (l * sz) k"

text \<open>The store \<open>dst\<close> with \<open>k\<close> bytes at \<open>p1\<close> replaced by the \<open>k\<close> bytes of \<open>src\<close> at \<open>p2\<close>.\<close>

definition copied :: "memory \<Rightarrow> nat \<Rightarrow> memory \<Rightarrow> nat \<Rightarrow> nat \<Rightarrow> memory" where
  "copied dst p1 src p2 k =
     (\<lambda>a. if p1 \<le> a \<and> a < p1 + k then src (p2 + (a - p1)) else dst a)"

text \<open>
  The comparator read as the predicate "less": \<open>a\<close> is before \<open>b\<close> when
  \<open>compar a b < 0\<close>. A strict weak order is irreflexive and transitive, and so is its
  incomparability.
\<close>

definition strict_weak_order :: "compar \<Rightarrow> bool" where
  "strict_weak_order compar \<longleftrightarrow>
     (\<forall>a. \<not> compar a a < 0) \<and>
     (\<forall>a b c. compar a b < 0 \<longrightarrow> compar b c < 0 \<longrightarrow> compar a c < 0) \<and>
     (\<forall>a b c. \<not> compar a b < 0 \<longrightarrow> \<not> compar b a < 0 \<longrightarrow>
               \<not> compar b c < 0 \<longrightarrow> \<not> compar c b < 0 \<longrightarrow>
               \<not> compar a c < 0 \<and> \<not> compar c a < 0)"

text \<open>\<open>a\<close> may stand before \<open>b\<close>: \<open>b\<close> is not less than \<open>a\<close>.\<close>

definition before :: "compar \<Rightarrow> u8 list \<Rightarrow> u8 list \<Rightarrow> bool" where
  "before compar a b \<longleftrightarrow> \<not> compar b a < 0"

text \<open>The check of adjacent pairs: no record is before its predecessor.\<close>

definition ordered :: "compar \<Rightarrow> memory \<Rightarrow> nat \<Rightarrow> nat \<Rightarrow> bool" where
  "ordered compar B sz nmemb \<longleftrightarrow>
     (\<forall>i \<in> {0..<nmemb - 1}. \<not> compar (rec_at B sz (i + 1)) (rec_at B sz i) < 0)"

text \<open>
  The merge rule in the words of the specification: the left record is taken only when
  the comparator is negative on (left, right), otherwise the right one; when one run is
  used up the rest of the other follows.
\<close>

fun spec_merge :: "compar \<Rightarrow> u8 list list \<Rightarrow> u8 list list \<Rightarrow> u8 list list" where
  "spec_merge compar [] rs = rs"
| "spec_merge compar ls [] = ls"
| "spec_merge compar (l # ls) (r # rs) =
     (if compar l r < 0 then l # spec_merge compar ls (r # rs)
      else r # spec_merge compar (l # ls) rs)"

subsection \<open>Buffers of 32-bit integers\<close>

text \<open>
  Freshly mapped anonymous memory reads as zero. \<open>int32_mem xs\<close> is a store that holds
  the integers \<open>xs\<close> as consecutive \<^verbatim>\<open>int32_t\<close> and zero after them.
\<close>

definition zero_mem :: memory where
  "zero_mem = (\<lambda>a. 0)"

definition int32_mem :: "int list \<Rightarrow> memory" where
  "int32_mem xs = (\<lambda>a. if a div 4 < length xs
       then ucast (drop_bit (8 * (a mod 4)) (word_of_int (xs ! (a div 4)) :: u32)) else 0)"

definition int32_at :: "memory \<Rightarrow> nat \<Rightarrow> int" where
  "int32_at m i = sint (load_u32 m (4 * i))"

definition int32s :: "memory \<Rightarrow> nat \<Rightarrow> int list" where
  "int32s m k = map (int32_at m) [0..<k]"

text \<open>
  Modelled from the spec: the ascending and the descending comparator of 32-bit integers
  that the driver passes (\<^verbatim>\<open>stress_sort_cmp_fwd_int32\<close> and \<^verbatim>\<open>stress_sort_cmp_rev_int32\<close> of
  \<^verbatim>\<open>core-sort.c\<close>, which is not part of the file). They return -1, 0 or 1; the driver's own
  check, \<^verbatim>\<open>*ptr > *(ptr + 1)\<close> after the first and \<^verbatim>\<open>*ptr < *(ptr + 1)\<close> after the second, shows
  the order each stands for.
\<close>

definition int32_of :: "u8 list \<Rightarrow> int" where
  "int32_of p = sint (load_u32 (\<lambda>i. p ! i) 0)"

definition stress_sort_cmp_fwd_int32 :: compar where
  "stress_sort_cmp_fwd_int32 p1 p2 =
     (let i1 = int32_of p1; i2 = int32_of p2
      in if i1 > i2 then 1 else if i1 < i2 then - 1 else 0)"

definition stress_sort_cmp_rev_int32 :: compar where
  "stress_sort_cmp_rev_int32 p1 p2 =
     (let i1 = int32_of p1; i2 = int32_of p2
      in if i1 < i2 then 1 else if i1 > i2 then - 1 else 0)"

text \<open>
  A call of \<^verbatim>\<open>mergesort_nonlibc\<close> as the driver makes it, on freshly mapped scratch memory:
  \<open>xs\<close> are the integers in memory from \<^verbatim>\<open>base\<close> on, of which the first \<open>nmemb\<close> are the
  buffer. The result is the return value and the same stretch of memory after the call.
\<close>

definition sort_int32s :: "compar \<Rightarrow> int list \<Rightarrow> nat \<Rightarrow> (int \<times> int list) option" where
  "sort_int32s compar xs nmemb =
     map_option (\<lambda>(r, B). (r, int32s B (length xs)))
       (mergesort_nonlibc (Mapped zero_mem) (int32_mem xs) nmemb 4 compar)"

text \<open>The same for records of one byte, compared as unsigned numbers.\<close>

definition bytes_mem :: "u8 list \<Rightarrow> memory" where
  "bytes_mem bs = (\<lambda>a. if a < length bs then bs ! a else 0)"

definition cmp_u8 :: compar where
  "cmp_u8 p1 p2 = uint (p1 ! 0) - uint (p2 ! 0)"

definition sort_bytes :: "u8 list \<Rightarrow> nat \<Rightarrow> (int \<times> u8 list) option" where
  "sort_bytes bs nmemb =
     map_option (\<lambda>(r, B). (r, obj B 0 (length bs)))
       (mergesort_nonlibc (Mapped zero_mem) (bytes_mem bs) nmemb 1 cmp_u8)"

section \<open>NUMA node discovery\<close>

definition hex_to_int :: "char \<Rightarrow> int" where
  "hex_to_int ch =
     (let c = (of_char ch :: int) in
      if of_char CHR ''0'' \<le> c \<and> c \<le> of_char CHR ''9'' then c - of_char CHR ''0''
      else if of_char CHR ''a'' \<le> c \<and> c \<le> of_char CHR ''f'' then c - of_char CHR ''a'' + 10
      else if of_char CHR ''A'' \<le> c \<and> c \<le> of_char CHR ''F'' then c - of_char CHR ''F'' + 10
      else - 1)"

text \<open>
  The nodes live in a heap, a map from addresses to \<^verbatim>\<open>stress_node_t\<close> values; \<open>None\<close> is the
  \<^verbatim>\<open>NULL\<close> pointer. \<^verbatim>\<open>calloc\<close> hands out the fresh address \<open>brk\<close> and succeeds \<open>avail\<close> more
  times. The other fields are the locals of \<^verbatim>\<open>stress_numa_get_mem_nodes\<close>: \<open>node_ptr\<close>
  is \<^verbatim>\<open>*node_ptr\<close> and \<open>id\<close> is the counter \<^verbatim>\<open>node_id\<close>.
\<close>

type_synonym addr = nat

record stress_node =
  "next" :: "addr option"
  node_id :: nat

record node_list =
  heap :: "addr \<rightharpoonup> stress_node"
  brk :: addr
  avail :: nat
  node_ptr :: "addr option"
  tail :: "addr option"
  n :: int
  id :: nat

definition calloc :: "node_list \<Rightarrow> (addr \<times> node_list) option" where
  "calloc st =
     (if avail st = 0 then None
      else Some (brk st, st\<lparr>heap := (heap st)(brk st \<mapsto> \<lparr>next = None, node_id = 0\<rparr>),
                              brk := brk st + 1, avail := avail st - 1\<rparr>))"

text \<open>The body of \<^verbatim>\<open>if (val & (1 << i))\<close> once the node is allocated.\<close>

definition add_node :: "addr \<Rightarrow> node_list \<Rightarrow> node_list" where
  "add_node node st =
     (let h = (heap st)(node \<mapsto> \<lparr>next = node_ptr st, node_id = id st\<rparr>);
          tail' = (case tail st of None \<Rightarrow> node | Some t \<Rightarrow> t);
          h = h(tail' := map_option (\<lambda>t. t\<lparr>next := Some node\<rparr>) (h tail'))
      in st\<lparr>heap := h, node_ptr := Some node, tail := Some tail', n := n st + 1\<rparr>)"

text \<open>
  The loop \<^verbatim>\<open>for (i = 0; i < 4; i++)\<close>. \<open>Inl\<close> is the \<^verbatim>\<open>return -1\<close> after a failed
  \<^verbatim>\<open>calloc\<close>, with the state as it is left; \<open>Inr\<close> is the end of the loop.
\<close>

function nibble_nodes :: "int \<Rightarrow> nat \<Rightarrow> node_list \<Rightarrow> node_list + node_list" where
  "nibble_nodes val i st =
     (if i < 4 then
        (if val AND push_bit i 1 \<noteq> 0 then
           (case calloc st of
              None \<Rightarrow> Inl st
            | Some (node, st) \<Rightarrow> nibble_nodes val (i + 1) ((add_node node st)\<lparr>id := id st + 1\<rparr>))
         else nibble_nodes val (i + 1) (st\<lparr>id := id st + 1\<rparr>))
      else Inr st)"
  by pat_completeness auto
termination
  by (relation "measure (\<lambda>(val, i, st). 4 - i)") auto

declare nibble_nodes.simps [simp del]

text \<open>
  The loop \<^verbatim>\<open>while ((*ptr != ' ') && (ptr > str))\<close>; \<open>str\<close> and \<open>ptr\<close> are indices into
  \<open>buffer\<close>, and \<open>ptr\<close> stays inside the line. \<open>Inl\<close> is a \<^verbatim>\<open>return -1\<close>.
\<close>

function parse_nodes :: "string \<Rightarrow> nat \<Rightarrow> nat \<Rightarrow> node_list \<Rightarrow> node_list + node_list" where
  "parse_nodes buffer str ptr st =
     (if buffer ! ptr \<noteq> CHR '' '' \<and> ptr > str then
        (if buffer ! ptr = CHR '','' then parse_nodes buffer str (ptr - 1) st
         else
           (let val = hex_to_int (buffer ! ptr) in
            if val < 0 then Inl st
            else (case nibble_nodes val 0 st of
                    Inl st \<Rightarrow> Inl st
                  | Inr st \<Rightarrow> parse_nodes buffer str (ptr - 1) st)))
      else Inr st)"
  by pat_completeness auto
termination
  by (relation "measure (\<lambda>(buffer, str, ptr, st). ptr)") auto

declare parse_nodes.simps [simp del]

text \<open>The \<^verbatim>\<open>fgets\<close> loop: the first line that starts with \<^verbatim>\<open>Mems_allowed:\<close>.\<close>

fun find_mems_allowed :: "string list \<Rightarrow> string option" where
  "find_mems_allowed [] = None"
| "find_mems_allowed (buffer # rest) =
     (if take 13 buffer = ''Mems_allowed:'' then Some buffer else find_mems_allowed rest)"

text \<open>
  \<open>status\<close> is what \<^verbatim>\<open>/proc/self/status\<close> gives: \<open>None\<close> when \<^verbatim>\<open>fopen\<close> fails, otherwise
  the lines that \<^verbatim>\<open>fgets\<close> returns; \<open>callocs\<close> is the number of times \<^verbatim>\<open>calloc\<close> succeeds.
  The result holds the return value, \<^verbatim>\<open>*node_ptr\<close>, \<^verbatim>\<open>*max_nodes\<close> (\<open>None\<close> when it was not
  written) and the heap.
\<close>

record mem_nodes =
  ret :: int
  nodes :: "addr option"
  max_nodes :: "nat option"
  node_heap :: "addr \<rightharpoonup> stress_node"

definition stress_numa_get_mem_nodes :: "string list option \<Rightarrow> nat \<Rightarrow> mem_nodes" where
  "stress_numa_get_mem_nodes status callocs =
     (let st = \<lparr>heap = Map.empty, brk = 1, avail = callocs, node_ptr = None, tail = None,
                n = 0, id = 0\<rparr>;
          failed = \<lparr>ret = - 1, nodes = None, max_nodes = None, node_heap = Map.empty\<rparr>
      in case status of
           None \<Rightarrow> failed
         | Some lines \<Rightarrow>
            (case find_mems_allowed lines of
               None \<Rightarrow> failed
             | Some buffer \<Rightarrow>
                (case parse_nodes buffer 13 (length buffer - 2) st of
                   Inl st \<Rightarrow> \<lparr>ret = - 1, nodes = node_ptr st, max_nodes = None,
                               node_heap = heap st\<rparr>
                 | Inr st \<Rightarrow> \<lparr>ret = n st, nodes = node_ptr st, max_nodes = Some (id st),
                               node_heap = heap st\<rparr>)))"

text \<open>Following \<^verbatim>\<open>n = n->next\<close> \<open>k\<close> times from the node at \<open>a\<close>.\<close>

fun walk :: "(addr \<rightharpoonup> stress_node) \<Rightarrow> addr \<Rightarrow> nat \<Rightarrow> addr option" where
  "walk h a 0 = Some a"
| "walk h a (Suc k) =
     (case h a of
        None \<Rightarrow> None
      | Some nd \<Rightarrow> (case next nd of None \<Rightarrow> None | Some b \<Rightarrow> walk h b k))"

definition node_ids :: "(addr \<rightharpoonup> stress_node) \<Rightarrow> addr \<Rightarrow> nat \<Rightarrow> nat option list" where
  "node_ids h a k =
     map (\<lambda>j. case walk h a j of None \<Rightarrow> None | Some b \<Rightarrow> map_option node_id (h b)) [0..<k]"

text \<open>A status file whose allowed-nodes mask has exactly the bits 0, 3 and 5 set.\<close>

definition status_0_3_5 :: "string list" where
  "status_0_3_5 =
     [''Name:'' @ CHR 0x09 # ''stress-ng\<newline>'',
      ''Mems_allowed:'' @ CHR 0x09 # ''00000000,00000029\<newline>'',
      ''Mems_allowed_list:'' @ CHR 0x09 # ''0,3,5\<newline>'']"

text \<open>The successor of the node at \<open>a\<close>, that is \<^verbatim>\<open>a->next\<close>.\<close>

definition succ_of :: "(addr \<rightharpoonup> stress_node) \<Rightarrow> addr \<Rightarrow> addr option" where
  "succ_of h a = (case h a of None \<Rightarrow> None | Some nd \<Rightarrow> next nd)"

text \<open>
  The state of the discovery after the nodes \<open>as\<close> were added, the newest first: the nodes
  are distinct and allocated, \<open>n\<close> counts them, \<^verbatim>\<open>*node_ptr\<close> is the first and \<^verbatim>\<open>tail\<close> the
  last of them, and every node points to the one after it, the last to the first.
\<close>

definition node_cycle :: "node_list \<Rightarrow> addr list \<Rightarrow> bool" where
  "node_cycle st as \<longleftrightarrow>
     distinct as \<and> (\<forall>a \<in> set as. a < brk st) \<and> n st = int (length as) \<and>
     node_ptr st = (if as = [] then None else Some (hd as)) \<and>
     tail st = (if as = [] then None else Some (last as)) \<and>
     (\<forall>i < length as. succ_of (heap st) (as ! i) = Some (as ! (Suc i mod length as)))"

text \<open>The discovery on that status file, with \<^verbatim>\<open>calloc\<close> succeeding three times.\<close>

definition nodes_0_3_5 :: mem_nodes where
  "nodes_0_3_5 = stress_numa_get_mem_nodes (Some status_0_3_5) 3"

text \<open>A status file whose mask is the single upper-case digit \<^verbatim>\<open>A\<close> (bits 1 and 3).\<close>

definition status_upper_A :: "string list" where
  "status_upper_A = [''Mems_allowed:'' @ CHR 0x09 # ''A\<newline>'']"

section \<open>The page-move rounds of stress\_numa\<close>

text \<open>
  One round of the loop \<^verbatim>\<open>for (j = 0; j < 16; j++)\<close> from the call of
  \<^verbatim>\<open>shim_move_pages\<close> on. The environment gives, for every round, the value \<^verbatim>\<open>lret\<close> the
  call returns, \<^verbatim>\<open>errno\<close>, and what \<^verbatim>\<open>stress_continue_flag()\<close> answers; \<^verbatim>\<open>pr_fail\<close> appends
  to a log. \<^verbatim>\<open>ENOSYS\<close> is 38 on Linux. Filling the arrays and touching the pages
  (\<^verbatim>\<open>stress_mmap_set_light\<close>) do not decide where control goes and are left out.
\<close>

datatype flow = Next_round | Break | Goto_err

definition ENOSYS :: int where
  "ENOSYS = 38"

definition move_pages_step :: "int \<times> int \<times> bool \<Rightarrow> string list \<Rightarrow> flow \<times> string list" where
  "move_pages_step env log =
     (case env of (lret, errno, continue_flag) \<Rightarrow>
        if lret < 0 then
          (if errno \<noteq> ENOSYS then (Goto_err, log @ [''move_pages failed''])
           else if \<not> continue_flag then (Break, log)
           else (Next_round, log))
        else if \<not> continue_flag then (Break, log)
        else (Next_round, log))"

text \<open>
  The whole loop: \<open>Goto_err\<close> when a round jumped to \<^verbatim>\<open>err\<close>, \<open>Break\<close> when a round left
  the loop, \<open>Next_round\<close> when all sixteen rounds were made; in the last two cases the
  iteration of the stress loop goes on after the loop.
\<close>

function move_pages_rounds ::
  "(nat \<Rightarrow> int \<times> int \<times> bool) \<Rightarrow> nat \<Rightarrow> string list \<Rightarrow> flow \<times> string list" where
  "move_pages_rounds env j log =
     (if j < 16 then
        (case move_pages_step (env j) log of
           (Next_round, log) \<Rightarrow> move_pages_rounds env (j + 1) log
         | (Break, log) \<Rightarrow> (Break, log)
         | (Goto_err, log) \<Rightarrow> (Goto_err, log))
      else (Next_round, log))"
  by pat_completeness auto
termination
  by (relation "measure (\<lambda>(env, j, log). 16 - j)") auto

declare move_pages_rounds.simps [simp del]

text \<open>An environment in which the first call of \<^verbatim>\<open>move_pages\<close> fails with \<^verbatim>\<open>EINVAL\<close> (22).\<close>

definition einval_env :: "nat \<Rightarrow> int \<times> int \<times> bool" where
  "einval_env j = (- 1, 22, True)"

text \<open>
  An environment in which the first call fails with \<^verbatim>\<open>ENOSYS\<close> and the later ones with
  \<^verbatim>\<open>EINVAL\<close>, and one in which every call fails with \<^verbatim>\<open>ENOSYS\<close>.
\<close>

definition enosys_then_einval_env :: "nat \<Rightarrow> int \<times> int \<times> bool" where
  "enosys_then_einval_env j = (if j = 0 then (- 1, 38, True) else (- 1, 22, True))"

definition enosys_env :: "nat \<Rightarrow> int \<times> int \<times> bool" where
  "enosys_env j = (- 1, 38, True)"

section \<open>The copy loops\<close>

text \<open>A 32-bit store of a 32-bit load moves the four bytes.\<close>

lemma store_load_u32:
  "store_u32 m p (load_u32 s q) =
     m(p := s q, p + 1 := s (q + 1), p + 2 := s (q + 2), p + 3 := s (q + 3))"
proof -
  have 0: "ucast (load_u32 s q) = s q"
    by (rule bit_word_eqI) (auto simp: load_u32_def bit_simps dest: bit_imp_le_length)
  have 1: "ucast (drop_bit 8 (load_u32 s q)) = s (q + 1)"
    by (rule bit_word_eqI) (auto simp: load_u32_def bit_simps dest: bit_imp_le_length)
  have 2: "ucast (drop_bit 16 (load_u32 s q)) = s (q + 2)"
    by (rule bit_word_eqI) (auto simp: load_u32_def bit_simps dest: bit_imp_le_length)
  have 3: "ucast (drop_bit 24 (load_u32 s q)) = s (q + 3)"
    by (rule bit_word_eqI) (auto simp: load_u32_def bit_simps dest: bit_imp_le_length)
  show ?thesis unfolding store_u32_def 0 1 2 3 ..
qed

lemma store_load_copied: "store_u32 m p (load_u32 s q) = copied m p s q 4"
proof
  fix a
  have "a = p \<or> a = p + 1 \<or> a = p + 2 \<or> a = p + 3 \<or> a < p \<or> p + 4 \<le> a" by arith
  then show "store_u32 m p (load_u32 s q) a = copied m p s q 4 a"
    by (auto simp: store_load_u32 copied_def)
qed

lemma copy_u8_copied: "copy_u8 dst p1 src p2 e = copied dst p1 src p2 (e - p1)"
proof (induction dst p1 src p2 e rule: copy_u8.induct)
  case (1 dst p1 src p2 e)
  show ?case
  proof (cases "p1 < e")
    case True
    have "copy_u8 dst p1 src p2 e = copy_u8 (dst(p1 := src p2)) (p1 + 1) src (p2 + 1) e"
      using True by (subst copy_u8.simps) simp
    also have "\<dots> = copied (dst(p1 := src p2)) (p1 + 1) src (p2 + 1) (e - (p1 + 1))"
      by (rule 1 [OF True])
    also have "\<dots> = copied dst p1 src p2 (e - p1)"
    proof
      fix a
      have "p1 < a \<Longrightarrow> p2 + 1 + (a - (p1 + 1)) = p2 + (a - p1)" by arith
      with True
      show "copied (dst(p1 := src p2)) (p1 + 1) src (p2 + 1) (e - (p1 + 1)) a =
            copied dst p1 src p2 (e - p1) a"
        unfolding copied_def by (cases "p1 < a") auto
    qed
    finally show ?thesis .
  next
    case False
    then show ?thesis
      by (subst copy_u8.simps) (auto simp: copied_def fun_eq_iff)
  qed
qed

lemma copy_u32_once: "copy_u32 dst p1 src p2 (p1 + 4) = store_u32 dst p1 (load_u32 src p2)"
  by (subst copy_u32.simps, subst copy_u32.simps) simp

lemma mergesort_copy_copied: "mergesort_copy dst p1 src p2 k = copied dst p1 src p2 k"
  by (simp add: mergesort_copy_def copy_u32_once store_load_copied copy_u8_copied)

section \<open>The four-byte path is the generic path at size 4\<close>

lemma merge_loop_4: 
  "merge_loop compar 4 S lhs_end rhs_end B base lhs rhs =
     Some (merge_loop4 compar S lhs_end rhs_end B base lhs rhs)"
proof (induction compar S lhs_end rhs_end B base lhs rhs rule: merge_loop4.induct)
  case (1 compar S lhs_end rhs_end B base lhs rhs)
  have c: "mergesort_copy B base S p 4 = store_u32 B base (load_u32 S p)" for p
    by (simp add: mergesort_copy_def copy_u32_once)
  show ?case
    using 1
    by (subst merge_loop.simps, subst merge_loop4.simps) (simp add: c Let_def)
qed

lemma partition_merge_4:
  "partition_merge B S left mid right 4 compar = Some (partition4_merge B S left mid right compar)"
  by (simp add: partition_merge_def partition4_merge_def Let_def merge_loop_4)

lemma mergesort_partition_4:
  "mergesort_partition B S left right 4 compar = Some (mergesort_partition4 B S left right compar)"
proof (induction B S left right compar rule: mergesort_partition4.induct)
  case (1 B S left right compar)
  show ?case
    apply (subst mergesort_partition.simps, subst mergesort_partition4.simps)
    using 1
    apply (auto simp add: Let_def partition_merge_4 split: prod.splits)
    done
qed


section \<open>What a merge leaves in the buffer\<close>

lemma length_chunks [simp]: "length (chunks m sz p k) = k"
  by (induction k arbitrary: p) auto

lemma obj_eqI: "(\<And>i. i < k \<Longrightarrow> m (p + i) = m' (q + i)) \<Longrightarrow> obj m p k = obj m' q k"
  by (simp add: obj_def)

lemma chunks_eqI:
  "(\<And>i. i < k * sz \<Longrightarrow> m (p + i) = m' (q + i)) \<Longrightarrow> chunks m sz p k = chunks m' sz q k"
proof (induction k arbitrary: p q)
  case 0
  show ?case by simp
next
  case (Suc k)
  have "obj m p sz = obj m' q sz"
    by (rule obj_eqI) (simp add: Suc.prems)
  moreover have "chunks m sz (p + sz) k = chunks m' sz (q + sz) k"
  proof (rule Suc.IH)
    fix i assume "i < k * sz"
    then have "sz + i < Suc k * sz" by simp
    from Suc.prems [OF this] show "m (p + sz + i) = m' (q + sz + i)"
      by (simp add: add.assoc)
  qed
  ultimately show ?case by simp
qed

lemma spec_merge_Nil2 [simp]: "spec_merge compar ls [] = ls"
  by (cases ls) auto

lemma spec_merge_left:
  "rs = [] \<or> compar l (hd rs) < 0 \<Longrightarrow>
   spec_merge compar (l # ls) rs = l # spec_merge compar ls rs"
  by (cases rs) auto

lemma spec_merge_right:
  "ls = [] \<or> \<not> compar (hd ls) r < 0 \<Longrightarrow>
   spec_merge compar ls (r # rs) = r # spec_merge compar ls rs"
  by (cases ls) auto

lemma hd_chunks: "0 < k \<Longrightarrow> hd (chunks m sz p k) = obj m p sz"
  by (cases k) auto

lemma chunks_Nil_iff [simp]: "chunks m sz p k = [] \<longleftrightarrow> k = 0"
  by (cases k) auto

text \<open>
  The loop and the code after it, started with \<open>nl\<close> records left in the left run and
  \<open>nr\<close> in the right run, whatever the scratch memory holds after the runs: the loop
  ends, the output holds the merge of the two runs by the rule of the specification, and
  outside the output and the one record after it the buffer store is unchanged.
\<close>

lemma merge_loop_tail:
  assumes sz: "0 < sz"
  shows "\<exists>st. merge_loop compar sz S (lhs + nl * sz) (rhs + nr * sz) B base lhs rhs = Some st \<and>
     chunks (merge_tail S (lhs + nl * sz) (rhs + nr * sz) st) sz base (nl + nr) =
       spec_merge compar (chunks S sz lhs nl) (chunks S sz rhs nr) \<and>
     (\<forall>a. a < base \<or> base + (nl + nr + 1) * sz \<le> a \<longrightarrow>
        merge_tail S (lhs + nl * sz) (rhs + nr * sz) st a = B a)"
proof (induction "nl + nr" arbitrary: nl nr lhs rhs base B rule: less_induct)
  case less
  let ?le = "lhs + nl * sz" and ?re = "rhs + nr * sz"
  let ?L = "obj S lhs sz" and ?R = "obj S rhs sz"
  show ?case
  proof (cases "compar ?L ?R < 0")
    case True
    define B1 where "B1 = copied B base S lhs sz"
    show ?thesis
    proof (cases nl)
      case 0
      have loop: "merge_loop compar sz S ?le ?re B base lhs rhs = Some (B1, base, lhs + sz, rhs)"
        using True sz 0 by (subst merge_loop.simps) (simp add: mergesort_copy_copied B1_def)
      define B' where "B' = merge_tail S ?le ?re (B1, base, lhs + sz, rhs)"
      have B': "B' = (if 0 < nr then copied B1 base S rhs (nr * sz) else B1)"
        using sz 0 by (simp add: B'_def merge_tail_def mergesort_copy_copied nat_mult_distrib)
      have "chunks B' sz base nr = chunks S sz rhs nr"
        by (rule chunks_eqI) (auto simp: B' copied_def)
      moreover have "\<forall>a. a < base \<or> base + (nr + 1) * sz \<le> a \<longrightarrow> B' a = B a"
        by (auto simp: B' B1_def copied_def)
      ultimately show ?thesis
        using loop 0 by (simp add: B'_def)
    next
      case (Suc k)
      have loop: "merge_loop compar sz S ?le ?re B base lhs rhs =
          merge_loop compar sz S ((lhs + sz) + k * sz) ?re B1 (base + sz) (lhs + sz) rhs"
        using True sz Suc by (subst merge_loop.simps) (simp add: mergesort_copy_copied B1_def add.assoc)
      have "k + nr < nl + nr" using Suc by simp
      from less [OF this, of "lhs + sz" rhs B1 "base + sz"]
      obtain st where st: "merge_loop compar sz S ((lhs + sz) + k * sz) ?re B1 (base + sz) (lhs + sz) rhs = Some st"
        and ch: "chunks (merge_tail S ((lhs + sz) + k * sz) ?re st) sz (base + sz) (k + nr) =
            spec_merge compar (chunks S sz (lhs + sz) k) (chunks S sz rhs nr)"
        and fr: "\<forall>a. a < base + sz \<or> base + sz + (k + nr + 1) * sz \<le> a \<longrightarrow>
            merge_tail S ((lhs + sz) + k * sz) ?re st a = B1 a"
        by blast
      have ends: "(lhs + sz) + k * sz = ?le" using Suc by simp
      define B' where "B' = merge_tail S ?le ?re st"
      have fr': "a < base + sz \<or> base + sz + (k + nr + 1) * sz \<le> a \<Longrightarrow> B' a = B1 a" for a
        using fr by (auto simp: B'_def ends)
      have hd: "obj B' base sz = ?L"
        by (rule obj_eqI) (simp add: fr' B1_def copied_def)
      have "spec_merge compar (chunks S sz lhs nl) (chunks S sz rhs nr) =
          ?L # spec_merge compar (chunks S sz (lhs + sz) k) (chunks S sz rhs nr)"
        using True Suc by (cases nr) (simp_all add: spec_merge_left)
      then have "chunks B' sz base (nl + nr) =
          spec_merge compar (chunks S sz lhs nl) (chunks S sz rhs nr)"
        using ch hd Suc by (simp add: B'_def ends)
      moreover have "\<forall>a. a < base \<or> base + (nl + nr + 1) * sz \<le> a \<longrightarrow> B' a = B a"
        using Suc by (auto simp: fr' B1_def copied_def)
      ultimately show ?thesis
        using loop st by (simp add: B'_def ends)
    qed
  next
    case False
    define B1 where "B1 = copied B base S rhs sz"
    show ?thesis
    proof (cases nr)
      case 0
      have loop: "merge_loop compar sz S ?le ?re B base lhs rhs = Some (B1, base, lhs, rhs + sz)"
        using False sz 0 by (subst merge_loop.simps) (simp add: mergesort_copy_copied B1_def)
      define B' where "B' = merge_tail S ?le ?re (B1, base, lhs, rhs + sz)"
      have B': "B' = (if 0 < nl then copied B1 base S lhs (nl * sz) else B1)"
        using sz 0 by (simp add: B'_def merge_tail_def mergesort_copy_copied nat_mult_distrib)
      have "chunks B' sz base nl = chunks S sz lhs nl"
        by (rule chunks_eqI) (auto simp: B' copied_def)
      moreover have "\<forall>a. a < base \<or> base + (nl + 1) * sz \<le> a \<longrightarrow> B' a = B a"
        by (auto simp: B' B1_def copied_def)
      ultimately show ?thesis
        using loop 0 by (simp add: B'_def)
    next
      case (Suc k)
      have loop: "merge_loop compar sz S ?le ?re B base lhs rhs =
          merge_loop compar sz S ?le ((rhs + sz) + k * sz) B1 (base + sz) lhs (rhs + sz)"
        using False sz Suc by (subst merge_loop.simps) (simp add: mergesort_copy_copied B1_def add.assoc)
      have "nl + k < nl + nr" using Suc by simp
      from less [OF this, of lhs "rhs + sz" B1 "base + sz"]
      obtain st where st: "merge_loop compar sz S ?le ((rhs + sz) + k * sz) B1 (base + sz) lhs (rhs + sz) = Some st"
        and ch: "chunks (merge_tail S ?le ((rhs + sz) + k * sz) st) sz (base + sz) (nl + k) =
            spec_merge compar (chunks S sz lhs nl) (chunks S sz (rhs + sz) k)"
        and fr: "\<forall>a. a < base + sz \<or> base + sz + (nl + k + 1) * sz \<le> a \<longrightarrow>
            merge_tail S ?le ((rhs + sz) + k * sz) st a = B1 a"
        by blast
      have ends: "(rhs + sz) + k * sz = ?re" using Suc by simp
      define B' where "B' = merge_tail S ?le ?re st"
      have fr': "a < base + sz \<or> base + sz + (nl + k + 1) * sz \<le> a \<Longrightarrow> B' a = B1 a" for a
        using fr by (auto simp: B'_def ends)
      have hd: "obj B' base sz = ?R"
        by (rule obj_eqI) (simp add: fr' B1_def copied_def)
      have "spec_merge compar (chunks S sz lhs nl) (chunks S sz rhs nr) =
          ?R # spec_merge compar (chunks S sz lhs nl) (chunks S sz (rhs + sz) k)"
        using False Suc by (cases nl) (simp_all add: spec_merge_right)
      then have "chunks B' sz base (nl + nr) =
          spec_merge compar (chunks S sz lhs nl) (chunks S sz rhs nr)"
        using ch hd Suc by (simp add: B'_def ends)
      moreover have "\<forall>a. a < base \<or> base + (nl + nr + 1) * sz \<le> a \<longrightarrow> B' a = B a"
        using Suc by (auto simp: fr' B1_def copied_def)
      ultimately show ?thesis
        using loop st by (simp add: B'_def ends)
    qed
  qed
qed

lemma recs_one [simp]: "recs m sz l (Suc 0) = [rec_at m sz l]"
  by (simp add: recs_def rec_at_def)

lemma length_recs [simp]: "length (recs m sz l k) = k"
  by (simp add: recs_def)

lemma recs_eqI:
  "(\<And>a. l * sz \<le> a \<Longrightarrow> a < (l + k) * sz \<Longrightarrow> m a = m' a) \<Longrightarrow> recs m sz l k = recs m' sz l k"
  unfolding recs_def
  by (rule chunks_eqI) (simp add: add_mult_distrib)

text \<open>
  The merge of \<^verbatim>\<open>mergesort_partition\<close> on the runs \<open>[left, mid]\<close> and \<open>[mid + 1, right]\<close>.
\<close>

lemma partition_merge_spec:
  assumes sz: "0 < sz" and lm: "left \<le> mid" and mr: "mid \<le> right"
  shows "\<exists>B' S'. partition_merge B S left mid right sz compar = Some (B', S') \<and>
     recs B' sz left (right - left + 1) =
       spec_merge compar (recs B sz left (mid - left + 1)) (recs B sz (mid + 1) (right - mid)) \<and>
     (\<forall>a. a < left * sz \<or> (right + 2) * sz \<le> a \<longrightarrow> B' a = B a)"
proof -
  define nl nr where "nl = mid - left + 1" and "nr = right - mid"
  define S1 where "S1 = copied S 0 B (left * sz) (nl * sz)"
  define S2 where "S2 = copied S1 (nl * sz) B ((mid + 1) * sz) (nr * sz)"
  have cnt: "nl + nr = right - left + 1"
    using lm mr by (simp add: nl_def nr_def)
  have l: "chunks S2 sz 0 nl = chunks B sz (left * sz) nl"
    by (rule chunks_eqI) (simp add: S2_def S1_def copied_def)
  have r: "chunks S2 sz (nl * sz) nr = chunks B sz ((mid + 1) * sz) nr"
    by (rule chunks_eqI) (simp add: S2_def copied_def)
  from merge_loop_tail [OF sz, of compar S2 0 nl "nl * sz" nr B "left * sz"]
  obtain st where st: "merge_loop compar sz S2 (nl * sz) (nl * sz + nr * sz) B (left * sz) 0 (nl * sz) = Some st"
    and ch: "chunks (merge_tail S2 (nl * sz) (nl * sz + nr * sz) st) sz (left * sz) (nl + nr) =
        spec_merge compar (chunks S2 sz 0 nl) (chunks S2 sz (nl * sz) nr)"
    and fr: "\<forall>a. a < left * sz \<or> left * sz + (nl + nr + 1) * sz \<le> a \<longrightarrow>
        merge_tail S2 (nl * sz) (nl * sz + nr * sz) st a = B a"
    by auto
  have pm: "partition_merge B S left mid right sz compar =
      Some (merge_tail S2 (nl * sz) (nl * sz + nr * sz) st, S2)"
    using st
    by (simp add: partition_merge_def Let_def mergesort_copy_copied nl_def nr_def S1_def S2_def)
  have "left * sz + (nl + nr + 1) * sz = (right + 2) * sz"
    using lm mr by (simp add: cnt add_mult_distrib [symmetric] del: mult_Suc)
  with fr have fr': "\<forall>a. a < left * sz \<or> (right + 2) * sz \<le> a \<longrightarrow>
        merge_tail S2 (nl * sz) (nl * sz + nr * sz) st a = B a"
    by simp
  show ?thesis
    using pm ch fr' l r cnt by (simp add: recs_def nl_def nr_def)
qed

section \<open>Order\<close>

lemma before_trans:
  assumes "strict_weak_order compar" "before compar a b" "before compar b c"
  shows "before compar a c"
  using assms unfolding strict_weak_order_def before_def by metis

lemma before_if_less:
  assumes "strict_weak_order compar" "compar a b < 0"
  shows "before compar a b"
  using assms unfolding strict_weak_order_def before_def by metis

lemma set_spec_merge: "set (spec_merge compar ls rs) = set ls \<union> set rs"
  by (induction compar ls rs rule: spec_merge.induct) auto

lemma sorted_spec_merge:
  "strict_weak_order compar \<Longrightarrow> sorted_wrt (before compar) ls \<Longrightarrow>
   sorted_wrt (before compar) rs \<Longrightarrow> sorted_wrt (before compar) (spec_merge compar ls rs)"
proof (induction compar ls rs rule: spec_merge.induct)
  case (3 compar l ls r rs)
  note swo = \<open>strict_weak_order compar\<close>
  show ?case
  proof (cases "compar l r < 0")
    case True
    then have lr: "before compar l r"
      using swo by (rule before_if_less [rotated])
    have "\<forall>x \<in> set rs. before compar l x"
      using "3.prems"(3) lr before_trans [OF swo] by auto
    with True 3 lr show ?thesis
      by (auto simp: set_spec_merge)
  next
    case False
    then have rl: "before compar r l"
      by (simp add: before_def)
    have "\<forall>x \<in> set ls. before compar r x"
      using "3.prems"(2) rl before_trans [OF swo] by auto
    with False 3 rl show ?thesis
      by (auto simp: set_spec_merge)
  qed
qed auto


lemma chunks_nth: "i < k \<Longrightarrow> chunks m sz p k ! i = obj m (p + i * sz) sz"
proof (induction k arbitrary: p i)
  case 0
  then show ?case by simp
next
  case (Suc k)
  show ?case
  proof (cases i)
    case 0
    then show ?thesis by simp
  next
    case (Suc j)
    with Suc.prems have "j < k" by simp
    from Suc.IH [OF this, of "p + sz"] Suc show ?thesis
      by (simp add: add.assoc)
  qed
qed

lemma recs_nth: "i < k \<Longrightarrow> recs m sz l k ! i = rec_at m sz (l + i)"
  by (simp add: recs_def rec_at_def chunks_nth add_mult_distrib)

lemma sorted_recs_ordered:
  assumes "sorted_wrt (before compar) (recs B sz 0 nmemb)"
  shows "ordered compar B sz nmemb"
  unfolding ordered_def
proof
  fix i assume "i \<in> {0..<nmemb - 1}"
  then have i: "i < i + 1" "i + 1 < nmemb" by auto
  from sorted_wrt_nth_less [OF assms, of i "i + 1"] i
  have "before compar (recs B sz 0 nmemb ! i) (recs B sz 0 nmemb ! (i + 1))"
    by simp
  with i show "\<not> compar (rec_at B sz (i + 1)) (rec_at B sz i) < 0"
    by (simp add: recs_nth before_def)
qed

section \<open>What mergesort\_partition leaves in the buffer\<close>

text \<open>
  For a record size above zero every call returns; it changes the buffer store only from
  record \<open>left\<close> to record \<open>right + 1\<close>; and under a strict weak order the records
  \<open>left\<close> to \<open>right\<close> are in order afterwards.
\<close>

lemma partition_result:
  assumes sz: "0 < sz"
  shows "left \<le> right \<Longrightarrow>
    \<exists>B' S'. mergesort_partition B S left right sz compar = Some (B', S') \<and>
      (strict_weak_order compar \<longrightarrow> sorted_wrt (before compar) (recs B' sz left (right - left + 1))) \<and>
      (\<forall>a. a < left * sz \<or> (right + 2) * sz \<le> a \<longrightarrow> B' a = B a)"
proof (induction "right - left" arbitrary: B S left right rule: less_induct)
  case less
  define mid where "mid = left + (right - left) div 2"
  have lm: "left \<le> mid" and mr: "mid \<le> right"
    using less.prems by (auto simp: mid_def)
  obtain B1 S1 where
    c1: "(if left < mid then mergesort_partition B S left mid sz compar else Some (B, S)) = Some (B1, S1)"
    and s1: "strict_weak_order compar \<longrightarrow> sorted_wrt (before compar) (recs B1 sz left (mid - left + 1))"
    and f1: "\<forall>a. a < left * sz \<or> (mid + 2) * sz \<le> a \<longrightarrow> B1 a = B a"
  proof (cases "left < mid")
    case True
    then have "mid - left < right - left"
      using less.prems by (auto simp: mid_def)
    from less.hyps [OF this lm, of B S] True that show ?thesis
      by auto
  next
    case False
    with lm have "mid = left" by simp
    with that [of B S] show ?thesis by simp
  qed
  obtain B2 S2 where
    c2: "(if mid + 1 < right then mergesort_partition B1 S1 (mid + 1) right sz compar else Some (B1, S1)) = Some (B2, S2)"
    and s2: "strict_weak_order compar \<longrightarrow> sorted_wrt (before compar) (recs B2 sz (mid + 1) (right - mid))"
    and f2: "\<forall>a. a < (mid + 1) * sz \<or> (right + 2) * sz \<le> a \<longrightarrow> B2 a = B1 a"
  proof (cases "mid + 1 < right")
    case True
    then have d: "right - (mid + 1) < right - left" and le: "mid + 1 \<le> right"
      using lm by auto
    have "right - (mid + 1) + 1 = right - mid"
      using True by simp
    with less.hyps [OF d le, of B1 S1] True that show ?thesis
      by auto
  next
    case False
    with mr have "right - mid = 0 \<or> right - mid = Suc 0" by auto
    with that [of B1 S1] False show ?thesis
      by (auto simp: recs_def)
  qed
  have keep: "recs B2 sz left (mid - left + 1) = recs B1 sz left (mid - left + 1)"
  proof (rule recs_eqI)
    fix a assume "a < (left + (mid - left + 1)) * sz"
    moreover have "left + (mid - left + 1) = mid + 1" using lm by simp
    ultimately show "B2 a = B1 a" using f2 by simp
  qed
  from partition_merge_spec [OF sz lm mr, of B2 S2 compar]
  obtain B' S' where pm: "partition_merge B2 S2 left mid right sz compar = Some (B', S')"
    and m: "recs B' sz left (right - left + 1) =
       spec_merge compar (recs B2 sz left (mid - left + 1)) (recs B2 sz (mid + 1) (right - mid))"
    and f3: "\<forall>a. a < left * sz \<or> (right + 2) * sz \<le> a \<longrightarrow> B' a = B2 a"
    by blast
  have "mergesort_partition B S left right sz compar =
      (case (if left < mid then mergesort_partition B S left mid sz compar else Some (B, S)) of
         None \<Rightarrow> None
       | Some (B, S) \<Rightarrow>
          (case (if mid + 1 < right then mergesort_partition B S (mid + 1) right sz compar
                 else Some (B, S)) of
             None \<Rightarrow> None
           | Some (B, S) \<Rightarrow> partition_merge B S left mid right sz compar))"
    by (subst mergesort_partition.simps) (simp only: Let_def mid_def)
  also have "\<dots> = Some (B', S')"
    by (simp only: c1 c2 pm option.case prod.case)
  finally have res: "mergesort_partition B S left right sz compar = Some (B', S')" .
  have sorted: "strict_weak_order compar \<longrightarrow>
      sorted_wrt (before compar) (recs B' sz left (right - left + 1))"
  proof
    assume swo: "strict_weak_order compar"
    with s1 s2 have "sorted_wrt (before compar) (recs B1 sz left (mid - left + 1))"
      and "sorted_wrt (before compar) (recs B2 sz (mid + 1) (right - mid))"
      by blast+
    then have "sorted_wrt (before compar)
        (spec_merge compar (recs B2 sz left (mid - left + 1)) (recs B2 sz (mid + 1) (right - mid)))"
      unfolding keep by (rule sorted_spec_merge [OF swo])
    then show "sorted_wrt (before compar) (recs B' sz left (right - left + 1))"
      unfolding m .
  qed
  have lo: "left * sz \<le> (mid + 1) * sz"
    by (rule mult_le_mono1) (use lm in simp)
  have hi: "(mid + 2) * sz \<le> (right + 2) * sz"
    by (rule mult_le_mono1) (use mr in simp)
  have frame: "\<forall>a. a < left * sz \<or> (right + 2) * sz \<le> a \<longrightarrow> B' a = B a"
  proof (intro allI impI)
    fix a assume a: "a < left * sz \<or> (right + 2) * sz \<le> a"
    have a2: "a < (mid + 1) * sz \<or> (right + 2) * sz \<le> a" using a lo by linarith
    have a1: "a < left * sz \<or> (mid + 2) * sz \<le> a" using a hi by linarith
    have "B' a = B2 a" using a f3 by blast
    also have "B2 a = B1 a" using a2 f2 by blast
    also have "B1 a = B a" using a1 f1 by blast
    finally show "B' a = B a" .
  qed
  from res sorted frame show ?case by blast
qed

lemma nonlibc_mapped:
  assumes "0 < sz"
  shows "\<exists>B'. mergesort_nonlibc (Mapped S) B nmemb sz compar = Some (0, B') \<and>
    (strict_weak_order compar \<longrightarrow> ordered compar B' sz nmemb)"
proof -
  define right :: nat where "right = (if nmemb = 0 then 2 ^ 64 - 1 else nmemb - 1)"
  from partition_result [OF assms, of 0 right B S compar]
  obtain B' S' where p: "mergesort_partition B S 0 right sz compar = Some (B', S')"
    and s: "strict_weak_order compar \<longrightarrow> sorted_wrt (before compar) (recs B' sz 0 (right + 1))"
    by auto
  have res: "mergesort_nonlibc (Mapped S) B nmemb sz compar = Some (0, B')"
  proof (cases "sz = 4")
    case True
    with p have "mergesort_partition4 B S 0 right compar = (B', S')"
      by (simp add: mergesort_partition_4)
    with True show ?thesis
      by (simp add: mergesort_nonlibc_def right_def)
  next
    case False
    with p show ?thesis
      by (simp add: mergesort_nonlibc_def right_def)
  qed
  have "ordered compar B' sz nmemb" if swo: "strict_weak_order compar"
  proof (cases "nmemb = 0")
    case True
    then show ?thesis by (simp add: ordered_def)
  next
    case False
    then have "right + 1 = nmemb" by (simp add: right_def)
    with s swo show ?thesis
      by (auto intro: sorted_recs_ordered)
  qed
  with res show ?thesis by blast
qed



section \<open>The claims on the merge sort\<close>

text \<open>The ascending comparator of 32-bit integers is a strict weak order.\<close>

lemma strict_weak_order_fwd_int32: "strict_weak_order stress_sort_cmp_fwd_int32"
  by (auto simp: strict_weak_order_def stress_sort_cmp_fwd_int32_def Let_def)

text \<open>
  Claim C1: for every buffer, every number of records \<open>nmemb\<close> (0, 1, 2, 1000 or more),
  every record size and every strict-weak-order comparator, a call of \<open>mergesort_nonlibc\<close>
  that returns 0 leaves the \<open>nmemb\<close> records of the buffer ordered: the check of every
  adjacent pair with the same comparator finds no violation. And whenever the scratch
  mapping succeeded and the record size is above zero, the call does return 0.
\<close>

theorem nonlibc_leaves_buffer_ordered:
  assumes "strict_weak_order compar"
  shows "(mergesort_nonlibc mapped B nmemb sz compar = Some (0, B') \<longrightarrow>
      ordered compar B' sz nmemb) \<and>
    (0 < sz \<longrightarrow>
      (\<exists>B''. mergesort_nonlibc (Mapped S) B nmemb sz compar = Some (0, B'') \<and>
        ordered compar B'' sz nmemb))"
proof (intro conjI impI)
  assume sz: "0 < sz"
  from nonlibc_mapped [OF sz, of S B nmemb compar] assms
  show "\<exists>B''. mergesort_nonlibc (Mapped S) B nmemb sz compar = Some (0, B'') \<and>
      ordered compar B'' sz nmemb"
    by blast
next
  assume res: "mergesort_nonlibc mapped B nmemb sz compar = Some (0, B')"
  show "ordered compar B' sz nmemb"
  proof (cases "sz = 0")
    case True
    have "rec_at B' 0 i = []" for i
      by (simp add: rec_at_def obj_def)
    with True assms show ?thesis
      by (simp add: ordered_def strict_weak_order_def)
  next
    case False
    then have sz: "0 < sz" by simp
    show ?thesis
    proof (cases mapped)
      case MAP_FAILED
      with res show ?thesis by (simp add: mergesort_nonlibc_def)
    next
      case (Mapped S')
      with nonlibc_mapped [OF sz, of S' B nmemb compar] assms res show ?thesis
        by auto
    qed
  qed
qed

text \<open>The buffer 5, 3, 1, 4, 2 under the ascending comparator.\<close>

theorem nonlibc_leaves_buffer_ordered_witness:
  "\<exists>B'. mergesort_nonlibc (Mapped zero_mem) (int32_mem [5, 3, 1, 4, 2]) 5 4
      stress_sort_cmp_fwd_int32 = Some (0, B') \<and>
    ordered stress_sort_cmp_fwd_int32 B' 4 5"
  using nonlibc_leaves_buffer_ordered [OF strict_weak_order_fwd_int32,
    where sz = 4 and S = zero_mem and B = "int32_mem [5, 3, 1, 4, 2]" and nmemb = 5]
  by simp

text \<open>
  Claim C2: every merge of \<^verbatim>\<open>mergesort_partition4\<close> and of \<^verbatim>\<open>mergesort_partition\<close> leaves in
  the records \<open>left\<close> to \<open>right\<close> what the rule of the specification produces from the two
  runs: at every step the front record of the left run is taken exactly when the
  comparator is negative on (left front, right front), and the front record of the right
  run in every other case.
\<close>

theorem merge_follows_tie_break_rule:
  assumes "left \<le> mid" and "mid \<le> right"
  shows "recs (fst (partition4_merge B S left mid right compar)) 4 left (right - left + 1) =
      spec_merge compar (recs B 4 left (mid - left + 1)) (recs B 4 (mid + 1) (right - mid)) \<and>
    (0 < sz \<longrightarrow>
      (\<exists>B' S'. partition_merge B S left mid right sz compar = Some (B', S') \<and>
        recs B' sz left (right - left + 1) =
          spec_merge compar (recs B sz left (mid - left + 1)) (recs B sz (mid + 1) (right - mid))))"
proof
  from partition_merge_spec [OF _ assms, of 4 B S compar]
  show "recs (fst (partition4_merge B S left mid right compar)) 4 left (right - left + 1) =
      spec_merge compar (recs B 4 left (mid - left + 1)) (recs B 4 (mid + 1) (right - mid))"
    by (auto simp: partition_merge_4)
next
  show "0 < sz \<longrightarrow>
      (\<exists>B' S'. partition_merge B S left mid right sz compar = Some (B', S') \<and>
        recs B' sz left (right - left + 1) =
          spec_merge compar (recs B sz left (mid - left + 1)) (recs B sz (mid + 1) (right - mid)))"
    using partition_merge_spec [OF _ assms, of sz B S compar] by blast
qed

text \<open>
  Two equal records: the comparator returns 0, and the record of the right run (index 1)
  comes out first.
\<close>

theorem merge_follows_tie_break_rule_witness:
  "recs (fst (partition4_merge (int32_mem [7, 7]) zero_mem 0 0 1 stress_sort_cmp_fwd_int32)) 4 0 2 =
     [rec_at (int32_mem [7, 7]) 4 1, rec_at (int32_mem [7, 7]) 4 0]"
proof -
  have "stress_sort_cmp_fwd_int32 (rec_at (int32_mem [7, 7]) 4 0) (rec_at (int32_mem [7, 7]) 4 1) = 0"
    by code_simp
  with merge_follows_tie_break_rule [of 0 0 1 "int32_mem [7, 7]" zero_mem
    stress_sort_cmp_fwd_int32 4]
  show ?thesis by (simp add: numeral_2_eq_2)
qed

text \<open>
  Claim C4: on the same stores, bounds and comparator, \<^verbatim>\<open>mergesort_partition\<close> called with
  size 4 returns, and leaves byte for byte the buffer and the scratch memory that
  \<^verbatim>\<open>mergesort_partition4\<close> leaves.
\<close>

theorem partition4_is_partition_at_size_4:
  "mergesort_partition B S left right 4 compar =
     Some (mergesort_partition4 B S left right compar)"
  by (rule mergesort_partition_4)

text \<open>
  When the mapping of the scratch region fails, \<open>mergesort_nonlibc\<close> returns -1 and the
  buffer store is the one it was given.
\<close>

lemma nonlibc_map_failed:
  "mergesort_nonlibc MAP_FAILED B nmemb sz compar = Some (- 1, B)"
  by (simp add: mergesort_nonlibc_def)

section \<open>Where the merge goes past the end of a run\<close>

text \<open>
  The loops test \<^verbatim>\<open>lhs > lhs_end\<close> and \<^verbatim>\<open>rhs > rhs_end\<close> after advancing, so they go on for
  one more turn when a run has just been used up: every merge ends with \<^verbatim>\<open>lhs\<close> one record
  past \<^verbatim>\<open>lhs_end\<close> or with \<^verbatim>\<open>rhs\<close> one record past \<^verbatim>\<open>rhs_end\<close>, so its last comparison read
  the record at \<^verbatim>\<open>lhs_end\<close> or at \<^verbatim>\<open>rhs_end\<close>.
\<close>

lemma merge_loop_runs_past_a_run:
  assumes sz: "0 < sz"
  shows "merge_loop compar sz S (lhs + nl * sz) (rhs + nr * sz) B base lhs rhs =
      Some (B', base', lhs', rhs') \<Longrightarrow>
    lhs' = lhs + nl * sz + sz \<or> rhs' = rhs + nr * sz + sz"
proof (induction "nl + nr" arbitrary: nl nr lhs rhs base B rule: less_induct)
  case less
  let ?le = "lhs + nl * sz" and ?re = "rhs + nr * sz"
  show ?case
  proof (cases "compar (obj S lhs sz) (obj S rhs sz) < 0")
    case True
    show ?thesis
    proof (cases nl)
      case 0
      with True sz less.prems show ?thesis
        by (subst (asm) merge_loop.simps) simp
    next
      case (Suc k)
      with True sz less.prems
      have "merge_loop compar sz S ((lhs + sz) + k * sz) ?re (mergesort_copy B base S lhs sz)
          (base + sz) (lhs + sz) rhs = Some (B', base', lhs', rhs')"
        by (subst (asm) merge_loop.simps) (simp add: add.assoc)
      from less.hyps [OF _ this] Suc show ?thesis by (auto simp: add.assoc)
    qed
  next
    case False
    show ?thesis
    proof (cases nr)
      case 0
      with False sz less.prems show ?thesis
        by (subst (asm) merge_loop.simps) simp
    next
      case (Suc k)
      with False sz less.prems
      have "merge_loop compar sz S ?le ((rhs + sz) + k * sz) (mergesort_copy B base S rhs sz)
          (base + sz) lhs (rhs + sz) = Some (B', base', lhs', rhs')"
        by (subst (asm) merge_loop.simps) (simp add: add.assoc)
      from less.hyps [OF _ this] Suc show ?thesis by (auto simp: add.assoc)
    qed
  qed
qed

text \<open>
  Claim C3 says that the comparator is never applied at or past the end of a run and that
  every write goes to a record in \<open>[left, right]\<close>. For the buffer 1, 2 (followed in
  memory by 7) and the bounds 0 and 1, the loop ends with \<^verbatim>\<open>rhs\<close> at offset 12, one record
  past \<^verbatim>\<open>rhs_end = 8\<close>, with \<^verbatim>\<open>base\<close> at offset 8, which is record 2, and record 2 has been
  overwritten with the zero found after the runs in the scratch memory. The generic
  function does the same on records of one byte.
\<close>

theorem merge_writes_past_right:
  "int32s (fst (mergesort_partition4 (int32_mem [1, 2, 7]) zero_mem 0 1
      stress_sort_cmp_fwd_int32)) 3 = [1, 2, 0] \<and>
   (case merge_loop4 stress_sort_cmp_fwd_int32 (int32_mem [1, 2]) 4 8 (int32_mem [1, 2, 7]) 0 0 4 of
      (B, base, lhs, rhs) \<Rightarrow> (base, lhs, rhs)) = (8, 4, 12) \<and>
   map_option (\<lambda>(B, S). obj B 0 3) (mergesort_partition (bytes_mem [1, 2, 7]) zero_mem 0 1 1 cmp_u8) =
     Some [1, 2, 0]"
  by code_simp

text \<open>
  A buffer of equal records (all zero) on zero-filled scratch memory: every comparison is a
  tie, every turn of the loop takes the record of the right run, and the stores stay as
  they are.
\<close>

lemma fwd_int32_zero [simp]:
  "stress_sort_cmp_fwd_int32 (obj zero_mem p 4) (obj zero_mem q 4) = 0"
  by (simp add: stress_sort_cmp_fwd_int32_def int32_of_def obj_def zero_mem_def load_u32_def
      upt_rec [of _ 4] numeral_nat)

lemma copied_zero [simp]: "copied zero_mem p zero_mem q k = zero_mem"
  by (simp add: copied_def zero_mem_def fun_eq_iff)





text \<open>
  Claim C5 says that a call with one record is a no-op. With the single record -1 in
  the buffer (followed in memory by 7) the call returns 0 and leaves -1 in the buffer,
  but it has written 0 over the record after the buffer.
\<close>

theorem nonlibc_one_record_writes_past_buffer:
  "sort_int32s stress_sort_cmp_fwd_int32 [- 1, 7] 1 = Some (0, [- 1, 0])"
  by code_simp

text \<open>
  With no record at all there is no guard: \<^verbatim>\<open>nmemb - 1\<close> wraps around to \<open>2 ^ 64 - 1\<close> and
  the partition is entered with that bound. Whatever the mapping gives, a call on memory
  that holds 2 and then 1 does not return 0 with the memory as it was: either the mapping
  failed (a mapping of 0 bytes is refused) and the call returns -1, or the memory from
  \<^verbatim>\<open>base\<close> on is sorted.
\<close>

lemma nonlibc_zero_records_is_not_a_no_op:
  "mergesort_nonlibc mapped (int32_mem [2, 1]) 0 4 stress_sort_cmp_fwd_int32 \<noteq>
     Some (0, int32_mem [2, 1])"
proof (cases mapped)
  case MAP_FAILED
  then show ?thesis by (simp add: mergesort_nonlibc_def)
next
  case (Mapped S)
  let ?B = "int32_mem [2, 1]" and ?c = stress_sort_cmp_fwd_int32
  from partition_result [of 4 0 "2 ^ 64 - 1" ?B S ?c] strict_weak_order_fwd_int32
  obtain B' S' where p: "mergesort_partition ?B S 0 (2 ^ 64 - 1) 4 ?c = Some (B', S')"
    and s: "sorted_wrt (before ?c) (recs B' 4 0 (2 ^ 64 - 1 - 0 + 1))"
    by auto
  from sorted_wrt_nth_less [OF s, of 0 1]
  have "before ?c (rec_at B' 4 0) (rec_at B' 4 1)"
    by (simp add: recs_nth)
  moreover have "\<not> before ?c (rec_at ?B 4 0) (rec_at ?B 4 1)"
    by code_simp
  ultimately have "B' \<noteq> ?B" by auto
  with p Mapped show ?thesis
    by (simp add: mergesort_nonlibc_def mergesort_partition_4)
qed

text \<open>
  Claim C10 says that the records after a successful call are a permutation of the
  records before it. On the four-byte path the buffer 1, 2, 5, 6 comes out as
  0, 1, 2, 6, and on the generic path the bytes 1, 2, 5, 6 come out the same way: the
  merge of the first half has written over the first record of the second half.
\<close>

theorem nonlibc_loses_a_record:
  "sort_int32s stress_sort_cmp_fwd_int32 [1, 2, 5, 6] 4 = Some (0, [0, 1, 2, 6]) \<and>
   sort_bytes [1, 2, 5, 6] 4 = Some (0, [0, 1, 2, 6])"
  by code_simp

text \<open>
  The scenario of the specification, 5, 3, 1, 4, 2 under the descending comparator,
  comes out as 5, 3, 3, 3, 2.
\<close>

lemma nonlibc_descending_scenario:
  "sort_int32s stress_sort_cmp_rev_int32 [5, 3, 1, 4, 2] 5 = Some (0, [5, 3, 3, 3, 2])"
  by code_simp


section \<open>hex\_to\_int\<close>

text \<open>
  What the three ranges of \<open>hex_to_int\<close> return, by character code: decimal digits and
  lower-case letters give the value of the digit; the upper-case range subtracts
  \<^verbatim>\<open>'F'\<close> where the lower-case range subtracts \<^verbatim>\<open>'a'\<close>, so \<^verbatim>\<open>'A'\<close> to \<^verbatim>\<open>'F'\<close> give 5 to 10.
\<close>

lemma hex_to_int_cases:
  "hex_to_int ch =
     (let c = (of_char ch :: int) in
      if 48 \<le> c \<and> c \<le> 57 then c - 48
      else if 97 \<le> c \<and> c \<le> 102 then c - 87
      else if 65 \<le> c \<and> c \<le> 70 then c - 60
      else - 1)"
  by (simp add: hex_to_int_def Let_def)

text \<open>
  Claim C8 says that \<open>hex_to_int\<close> maps \<^verbatim>\<open>'A'\<close> to \<^verbatim>\<open>'F'\<close> to 10 to 15. The code returns
  5, 6, 7, 8, 9 and 10 for them.
\<close>

theorem hex_to_int_upper_case:
  "map hex_to_int ''ABCDEF'' = [5, 6, 7, 8, 9, 10]"
  by (simp add: hex_to_int_def)

text \<open>
  With the mask written \<^verbatim>\<open>A\<close> the discovery builds the nodes 2 and 0, not 3 and 1.
\<close>

lemma upper_case_nibble_nodes:
  "ret (stress_numa_get_mem_nodes (Some status_upper_A) 4) = 2 \<and>
   node_ids (node_heap (stress_numa_get_mem_nodes (Some status_upper_A) 4)) 2 2 = [Some 2, Some 0]"
  by code_simp

section \<open>The node list is a cycle\<close>

lemma walk_Suc: "walk h a (Suc k) = (case succ_of h a of None \<Rightarrow> None | Some b \<Rightarrow> walk h b k)"
  by (simp add: succ_of_def split: option.splits)

lemma walk_cycle:
  assumes "\<forall>i < length as. succ_of h (as ! i) = Some (as ! (Suc i mod length as))"
  shows "i < length as \<Longrightarrow> walk h (as ! i) k = Some (as ! ((i + k) mod length as))"
proof (induction k arbitrary: i)
  case 0
  then show ?case by simp
next
  case (Suc k)
  have "0 < length as" using Suc.prems by (cases as) auto
  then have m: "Suc i mod length as < length as"
    by (rule mod_less_divisor)
  have "walk h (as ! i) (Suc k) = walk h (as ! (Suc i mod length as)) k"
    using assms Suc.prems by (simp add: walk_Suc del: walk.simps)
  also have "\<dots> = Some (as ! ((Suc i mod length as + k) mod length as))"
    by (rule Suc.IH [OF m])
  also have "(Suc i mod length as + k) mod length as = (i + Suc k) mod length as"
    by (simp add: mod_add_left_eq)
  finally show ?case .
qed

lemma node_cycle_add:
  assumes inv: "node_cycle st as" and c: "calloc st = Some (node, st')"
  shows "node_cycle ((add_node node st')\<lparr>id := x\<rparr>) (node # as)"
proof -
  have node: "node = brk st"
    and st': "st' = st\<lparr>heap := (heap st)(brk st \<mapsto> \<lparr>next = None, node_id = 0\<rparr>),
        brk := brk st + 1, avail := avail st - 1\<rparr>"
    using c by (auto simp: calloc_def split: if_splits)
  from inv have d: "distinct as" and lt: "\<forall>a \<in> set as. a < brk st"
    and cnt: "n st = int (length as)"
    and hd: "node_ptr st = (if as = [] then None else Some (hd as))"
    and tl: "tail st = (if as = [] then None else Some (last as))"
    and sc: "\<forall>i < length as. succ_of (heap st) (as ! i) = Some (as ! (Suc i mod length as))"
    by (auto simp: node_cycle_def)
  have fresh: "node \<notin> set as" using lt node by auto
  define t where "t = (if as = [] then node else last as)"
  define h1 where "h1 = (heap st')(node \<mapsto> \<lparr>next = node_ptr st, node_id = id st\<rparr>)"
  define h2 where "h2 = h1(t := map_option (\<lambda>nd. nd\<lparr>next := Some node\<rparr>) (h1 t))"
  have st2: "add_node node st' =
      st'\<lparr>heap := h2, node_ptr := Some node, tail := Some t, n := n st + 1\<rparr>"
    using tl by (simp add: add_node_def Let_def st' h2_def h1_def t_def)
  have h1_old: "a \<in> set as \<Longrightarrow> h1 a = heap st a" for a
    using fresh by (auto simp: h1_def st' node)
  have succ: "succ_of h2 ((node # as) ! i) = Some ((node # as) ! (Suc i mod length (node # as)))"
    if i: "i < length (node # as)" for i
  proof (cases as)
    case Nil
    with i show ?thesis
      by (simp add: succ_of_def h2_def h1_def t_def)
  next
    case (Cons b bs)
    then have ne: "as \<noteq> []" by simp
    then have t: "t = last as" "t \<in> set as" "t \<noteq> node"
      using fresh by (auto simp: t_def)
    have last: "last as = as ! (length as - 1)"
      using ne by (simp add: last_conv_nth)
    show ?thesis
    proof (cases i)
      case 0
      have "succ_of h2 node = Some (hd as)"
        using t hd ne by (simp add: succ_of_def h2_def h1_def)
      with 0 ne show ?thesis
        by (cases as) (simp_all add: hd_conv_nth)
    next
      case (Suc j)
      with i have j: "j < length as" by simp
      have el: "(node # as) ! i = as ! j" using Suc by simp
      from sc j obtain nd where nd: "heap st (as ! j) = Some nd"
        and nx: "next nd = Some (as ! (Suc j mod length as))"
        by (auto simp: succ_of_def split: option.splits)
      show ?thesis
      proof (cases "Suc j = length as")
        case True
        then have "j = length as - 1" by simp
        then have "as ! j = t" using t last by simp
        moreover have "h1 t = heap st t" using t(2) by (rule h1_old)
        ultimately have "succ_of h2 (as ! j) = Some node"
          using nd by (simp add: succ_of_def h2_def)
        moreover have "(node # as) ! (Suc i mod length (node # as)) = node"
          using True Suc by simp
        ultimately show ?thesis unfolding el by simp
      next
        case False
        with j have sj: "Suc j < length as" by simp
        then have "as ! j \<noteq> t"
          using d j t last by (simp add: nth_eq_iff_index_eq)
        moreover have "h1 (as ! j) = heap st (as ! j)"
          using j by (intro h1_old nth_mem)
        ultimately have "succ_of h2 (as ! j) = Some (as ! Suc j)"
          using nd nx sj by (simp add: succ_of_def h2_def)
        moreover have "(node # as) ! (Suc i mod length (node # as)) = as ! Suc j"
          using sj Suc by simp
        ultimately show ?thesis unfolding el by simp
      qed
    qed
  qed
  define st3 where "st3 = (add_node node st')\<lparr>id := x\<rparr>"
  have f: "heap st3 = h2" "node_ptr st3 = Some node" "tail st3 = Some t" "n st3 = n st + 1"
    "brk st3 = brk st'"
    by (simp_all add: st3_def st2)
  have b: "brk st' = brk st + 1"
    by (simp add: st')
  have "node_cycle st3 (node # as)"
    unfolding node_cycle_def f b
    using d fresh lt cnt succ
    by (auto simp: node t_def)
  then show ?thesis by (simp add: st3_def)
qed


lemma node_cycle_id [simp]: "node_cycle (st\<lparr>id := x\<rparr>) as = node_cycle st as"
  by (simp add: node_cycle_def)

lemma nibble_nodes_cycle:
  "nibble_nodes val i st = Inr st' \<Longrightarrow> node_cycle st as \<Longrightarrow> \<exists>as'. node_cycle st' as'"
proof (induction val i st arbitrary: as rule: nibble_nodes.induct)
  case (1 val i st)
  show ?case
  proof (cases "i < 4")
    case False
    with "1.prems" show ?thesis
      by (subst (asm) nibble_nodes.simps) auto
  next
    case i: True
    show ?thesis
    proof (cases "val AND push_bit i 1 \<noteq> 0")
      case False
      with i "1.prems"(1) have "nibble_nodes val (i + 1) (st\<lparr>id := id st + 1\<rparr>) = Inr st'"
        by (subst (asm) nibble_nodes.simps) simp
      from "1.IH"(2) [OF i False this, of as] "1.prems"(2) show ?thesis
        by simp
    next
      case bit: True
      show ?thesis
      proof (cases "calloc st")
        case None
        with i bit "1.prems"(1) show ?thesis
          by (subst (asm) nibble_nodes.simps) simp
      next
        case (Some r)
        obtain node st1 where r: "r = (node, st1)" by (cases r)
        with Some i bit "1.prems"(1)
        have "nibble_nodes val (i + 1) ((add_node node st1)\<lparr>id := id st1 + 1\<rparr>) = Inr st'"
          by (subst (asm) nibble_nodes.simps) simp
        moreover have "node_cycle ((add_node node st1)\<lparr>id := id st1 + 1\<rparr>) (node # as)"
          using "1.prems"(2) Some r by (intro node_cycle_add) auto
        ultimately show ?thesis
          using "1.IH"(1) [OF i bit Some r [symmetric]] by blast
      qed
    qed
  qed
qed

lemma parse_nodes_cycle:
  "parse_nodes buffer str ptr st = Inr st' \<Longrightarrow> node_cycle st as \<Longrightarrow> \<exists>as'. node_cycle st' as'"
proof (induction buffer str ptr st arbitrary: as rule: parse_nodes.induct)
  case (1 buffer str ptr st)
  show ?case
  proof (cases "buffer ! ptr \<noteq> CHR '' '' \<and> ptr > str")
    case False
    with "1.prems" show ?thesis
      by (subst (asm) parse_nodes.simps) auto
  next
    case go: True
    show ?thesis
    proof (cases "buffer ! ptr = CHR '',''")
      case True
      with go "1.prems"(1) have "parse_nodes buffer str (ptr - 1) st = Inr st'"
        by (subst (asm) parse_nodes.simps) simp
      from "1.IH"(1) [OF go True this "1.prems"(2)] show ?thesis .
    next
      case False
      define val where "val = hex_to_int (buffer ! ptr)"
      from go False "1.prems"(1) have nonneg: "\<not> val < 0"
        by (subst (asm) parse_nodes.simps) (auto simp: val_def Let_def split: if_splits)
      from go False "1.prems"(1) nonneg obtain st1 where
        nib: "nibble_nodes val 0 st = Inr st1"
        and rest: "parse_nodes buffer str (ptr - 1) st1 = Inr st'"
        by (subst (asm) parse_nodes.simps)
          (auto simp: val_def Let_def split: if_splits sum.splits)
      from nibble_nodes_cycle [OF nib "1.prems"(2)] obtain as1 where "node_cycle st1 as1" ..
      from "1.IH"(2) [OF go False val_def nonneg nib rest this] show ?thesis .
    qed
  qed
qed

lemma node_cycle_init:
  "node_cycle \<lparr>heap = Map.empty, brk = 1, avail = callocs, node_ptr = None, tail = None,
      n = 0, id = 0\<rparr> []"
  by (simp add: node_cycle_def)

text \<open>
  Claim C9: whenever \<open>stress_numa_get_mem_nodes\<close> returns a positive count, the nodes it
  built are that many distinct nodes \<open>as\<close>, reached one after the other from
  \<^verbatim>\<open>*node_ptr\<close> by following \<^verbatim>\<open>next\<close>; the successor of the last is the first; and
  three times the count of steps from any of them lead back to it.
\<close>

theorem node_list_is_a_cycle:
  assumes "0 < ret (stress_numa_get_mem_nodes status callocs)"
  shows "\<exists>as. as \<noteq> [] \<and> distinct as \<and>
    int (length as) = ret (stress_numa_get_mem_nodes status callocs) \<and>
    nodes (stress_numa_get_mem_nodes status callocs) = Some (hd as) \<and>
    (\<forall>i < length as.
       walk (node_heap (stress_numa_get_mem_nodes status callocs)) (hd as) i = Some (as ! i)) \<and>
    walk (node_heap (stress_numa_get_mem_nodes status callocs)) (last as) 1 = Some (hd as) \<and>
    (\<forall>a \<in> set as.
       walk (node_heap (stress_numa_get_mem_nodes status callocs)) a (3 * length as) = Some a)"
proof -
  define r where "r = stress_numa_get_mem_nodes status callocs"
  define st0 where "st0 = \<lparr>heap = Map.empty, brk = 1, avail = callocs, node_ptr = None,
      tail = None, n = 0, id = 0\<rparr>"
  from assms obtain lines buffer st where
    parsed: "parse_nodes buffer 13 (length buffer - 2) st0 = Inr st"
    and r: "r = \<lparr>ret = n st, nodes = node_ptr st, max_nodes = Some (id st), node_heap = heap st\<rparr>"
    unfolding r_def stress_numa_get_mem_nodes_def Let_def st0_def
    by (auto split: option.splits sum.splits)
  from parse_nodes_cycle [OF parsed] node_cycle_init obtain as where inv: "node_cycle st as"
    unfolding st0_def by blast
  from assms r have pos: "0 < n st" by (simp add: r_def)
  with inv have ne: "as \<noteq> []" by (auto simp: node_cycle_def)
  then have len: "0 < length as" by simp
  from inv have sc: "\<forall>i < length as. succ_of (heap st) (as ! i) = Some (as ! (Suc i mod length as))"
    by (simp add: node_cycle_def)
  have w: "walk (heap st) (as ! i) k = Some (as ! ((i + k) mod length as))" if "i < length as" for i k
    using walk_cycle [OF sc that] .
  have "\<forall>i < length as. walk (heap st) (hd as) i = Some (as ! i)"
    using w [of 0] len ne by (simp add: hd_conv_nth)
  moreover have "walk (heap st) (last as) 1 = Some (hd as)"
    using w [of "length as - 1" 1] len ne by (simp add: last_conv_nth hd_conv_nth)
  moreover have "\<forall>a \<in> set as. walk (heap st) a (3 * length as) = Some a"
  proof
    fix a assume "a \<in> set as"
    then obtain i where i: "i < length as" "a = as ! i"
      by (auto simp: in_set_conv_nth)
    with w [of i "3 * length as"] show "walk (heap st) a (3 * length as) = Some a"
      by simp
  qed
  ultimately show ?thesis
    using inv ne unfolding r_def [symmetric] r
    by (intro exI [of _ as]) (simp add: node_cycle_def)
qed

text \<open>
  For the mask with the bits 0, 3 and 5: three nodes, with the ids 5, 3 and 0 from
  \<^verbatim>\<open>*node_ptr\<close> on, and nine steps from the first node lead back to it.
\<close>

theorem node_list_is_a_cycle_witness:
  "ret nodes_0_3_5 = 3 \<and> nodes nodes_0_3_5 = Some 3 \<and>
   node_ids (node_heap nodes_0_3_5) 3 3 = [Some 5, Some 3, Some 0] \<and>
   walk (node_heap nodes_0_3_5) 3 (3 * 3) = Some 3 \<and>
   (\<exists>as. length as = 3 \<and> distinct as \<and> nodes nodes_0_3_5 = Some (hd as) \<and>
      walk (node_heap nodes_0_3_5) (last as) 1 = Some (hd as) \<and>
      walk (node_heap nodes_0_3_5) (last as) (3 * 3) = Some (last as))"
proof -
  have c: "ret nodes_0_3_5 = 3" "nodes nodes_0_3_5 = Some 3"
    "node_ids (node_heap nodes_0_3_5) 3 3 = [Some 5, Some 3, Some 0]"
    "walk (node_heap nodes_0_3_5) 3 (3 * 3) = Some 3"
    by code_simp+
  then have "0 < ret (stress_numa_get_mem_nodes (Some status_0_3_5) 3)"
    by (simp add: nodes_0_3_5_def)
  from node_list_is_a_cycle [OF this] c(1)
  obtain as where "as \<noteq> []" "length as = 3" "distinct as" "nodes nodes_0_3_5 = Some (hd as)"
    "walk (node_heap nodes_0_3_5) (last as) 1 = Some (hd as)"
    "\<forall>a \<in> set as. walk (node_heap nodes_0_3_5) a (3 * length as) = Some a"
    unfolding nodes_0_3_5_def [symmetric] by auto
  then have "\<exists>as. length as = 3 \<and> distinct as \<and> nodes nodes_0_3_5 = Some (hd as) \<and>
      walk (node_heap nodes_0_3_5) (last as) 1 = Some (hd as) \<and>
      walk (node_heap nodes_0_3_5) (last as) (3 * 3) = Some (last as)"
    by (intro exI [of _ as]) auto
  with c show ?thesis by blast
qed

section \<open>A failing move\_pages call\<close>

text \<open>
  Claim C7 as stated (a failure of \<^verbatim>\<open>move_pages\<close> other than "not supported" does not stop
  the run) fails: when the first call returns -1 with \<^verbatim>\<open>EINVAL\<close> the loop is left for the
  label \<^verbatim>\<open>err\<close>, after one line of log.
\<close>

theorem move_pages_einval_goes_to_err:
  "move_pages_rounds einval_env 0 [] = (Goto_err, [''move_pages failed''])"
  by (simp add: move_pages_rounds.simps move_pages_step_def einval_env_def ENOSYS_def)

text \<open>Rounds in which the call succeeds or fails with \<^verbatim>\<open>ENOSYS\<close> leave no trace.\<close>

lemma move_pages_rounds_skip:
  assumes "k \<le> j" "j \<le> 16"
    and "\<forall>i. k \<le> i \<and> i < j \<longrightarrow>
      (0 \<le> fst (env i) \<or> fst (snd (env i)) = ENOSYS) \<and> snd (snd (env i))"
  shows "move_pages_rounds env k log = move_pages_rounds env j log"
  using assms
proof (induction "j - k" arbitrary: k)
  case 0
  then show ?case by simp
next
  case (Suc d)
  then have kj: "k < j" by simp
  with Suc.prems have step: "move_pages_step (env k) log = (Next_round, log)"
    by (auto simp: move_pages_step_def split: prod.splits)
  have "move_pages_rounds env (k + 1) log = move_pages_rounds env j log"
    using Suc kj by (intro Suc.hyps) auto
  with kj Suc.prems(2) step show ?case
    by (subst move_pages_rounds.simps) simp
qed

text \<open>
  Claim C7, amended. Let the rounds before round \<open>j\<close> have succeeded or failed with
  \<^verbatim>\<open>ENOSYS\<close>. If \<^verbatim>\<open>move_pages\<close> then fails in round \<open>j\<close> with an error other than \<^verbatim>\<open>ENOSYS\<close>,
  the failure is logged and the loop is left for the label \<^verbatim>\<open>err\<close>, the early-exit path of
  the policy calls. A failure with \<^verbatim>\<open>ENOSYS\<close> is ignored: nothing is logged and the loop goes
  on with the next round (or is left by \<^verbatim>\<open>break\<close> when the continue flag is down); and when
  all sixteen rounds succeed or fail with \<^verbatim>\<open>ENOSYS\<close> the loop ends normally with the log as
  it was.
\<close>

theorem move_pages_failure_is_fatal:
  assumes "j \<le> 16"
    and "\<forall>i<j. (0 \<le> fst (env i) \<or> fst (snd (env i)) = ENOSYS) \<and> snd (snd (env i))"
  shows "(j < 16 \<and> fst (env j) < 0 \<and> fst (snd (env j)) \<noteq> ENOSYS \<longrightarrow>
      move_pages_rounds env 0 log = (Goto_err, log @ [''move_pages failed''])) \<and>
    (j < 16 \<and> fst (env j) < 0 \<and> fst (snd (env j)) = ENOSYS \<and> snd (snd (env j)) \<longrightarrow>
      move_pages_rounds env 0 log = move_pages_rounds env (j + 1) log) \<and>
    (j < 16 \<and> fst (env j) < 0 \<and> fst (snd (env j)) = ENOSYS \<and> \<not> snd (snd (env j)) \<longrightarrow>
      move_pages_rounds env 0 log = (Break, log)) \<and>
    (j = 16 \<longrightarrow> move_pages_rounds env 0 log = (Next_round, log))"
proof -
  have skip: "move_pages_rounds env 0 log = move_pages_rounds env j log"
    using assms by (intro move_pages_rounds_skip) auto
  have at: "move_pages_rounds env j log =
      (if j < 16 then
         (case move_pages_step (env j) log of
            (Next_round, log) \<Rightarrow> move_pages_rounds env (j + 1) log
          | (Break, log) \<Rightarrow> (Break, log)
          | (Goto_err, log) \<Rightarrow> (Goto_err, log))
       else (Next_round, log))"
    by (rule move_pages_rounds.simps)
  show ?thesis
    unfolding skip at
    by (auto simp: move_pages_step_def split: prod.splits)
qed

text \<open>
  A failure with \<^verbatim>\<open>ENOSYS\<close> in round 0 followed by one with \<^verbatim>\<open>EINVAL\<close> in round 1 gives one
  line of log and the jump to \<^verbatim>\<open>err\<close>; sixteen failures with \<^verbatim>\<open>ENOSYS\<close> give no line and
  the normal end of the loop.
\<close>

theorem move_pages_failure_is_fatal_witness:
  "move_pages_rounds enosys_then_einval_env 0 [''start''] =
     (Goto_err, [''start'', ''move_pages failed'']) \<and>
   move_pages_rounds enosys_env 0 [''start''] = (Next_round, [''start''])"
proof -
  have "move_pages_rounds enosys_then_einval_env 0 [''start''] =
      (Goto_err, [''start'', ''move_pages failed''])"
    using move_pages_failure_is_fatal [of 1 enosys_then_einval_env "[''start'']"]
    by (simp add: enosys_then_einval_env_def ENOSYS_def)
  moreover have "move_pages_rounds enosys_env 0 [''start''] = (Next_round, [''start''])"
    using move_pages_failure_is_fatal [of 16 enosys_env "[''start'']"]
    by (simp add: enosys_env_def ENOSYS_def)
  ultimately show ?thesis ..
qed

end
